theory Spec2Isabelle
  imports Main "HOL-Library.Sublist"
begin

section \<open>Data model of the Orthanc utilities\<close>

text \<open>
  The scripts talk to an Orthanc server with \<^verbatim>\<open>requests.get(url).json()\<close> and read a few
  fields of the JSON answers. The answers are modelled by their shape in the Orthanc REST
  interface: a list of identifiers, or an object of which the scripts read named fields.
  A field the code reads with \<^verbatim>\<open>obj['key']\<close> is an option: \<open>None\<close> is the absent key,
  on which Python raises \<^verbatim>\<open>KeyError('key')\<close>. A JSON object is an association list
  (a Python dict keeps its keys in order and has each key once).
\<close>

datatype json =
    JNull
  | JBool bool
  | JNum int
  | JStr string
  | JArr "json list"
  | JObj "(string \<times> json) list"

text \<open>
  Python's truth value of a decoded JSON value, as \<^verbatim>\<open>if annotation_data.get(key)\<close> tests it.
  (Numbers are integers here; a JSON number with a fraction is truthy unless it is zero, too.)
\<close>

fun truthy :: "json \<Rightarrow> bool" where
  "truthy JNull = False"
| "truthy (JBool b) = b"
| "truthy (JNum n) = (n \<noteq> 0)"
| "truthy (JStr s) = (s \<noteq> [])"
| "truthy (JArr xs) = (xs \<noteq> [])"
| "truthy (JObj kvs) = (kvs \<noteq> [])"

text \<open>The exceptions the modelled code raises by itself.\<close>

datatype py_error =
    KeyError string
  | ZeroDivisionError
  | ValueError

type_synonym tags = "(string \<times> string) list"

record study_info =
  PatientMainDicomTags :: "tags option"
  Series :: "string list option"

record series_info =
  Instances :: "string list option"

record instance_info =
  MainDicomTags :: "tags option"

text \<open>
  The server, as the answers to the GET requests of \<^verbatim>\<open>extract_annotated_studies\<close>:
  \<^item> \<open>all_studies\<close>: \<^verbatim>\<open>GET {studies_url}\<close>;
  \<^item> \<open>attachments s\<close>: \<^verbatim>\<open>GET {studies_url}{s}/attachments/\<close>;
  \<^item> \<open>annotation_data s\<close>: \<^verbatim>\<open>GET {studies_url}{s}/attachments/9999/data\<close>;
  \<^item> \<open>get_study s\<close>: \<^verbatim>\<open>GET {studies_url}{s}\<close>;
  \<^item> \<open>get_series r\<close>: \<^verbatim>\<open>GET {series_url}{r}\<close>;
  \<^item> \<open>get_instance i\<close>: \<^verbatim>\<open>GET {instances_url}{i}\<close>.
  A failure of the request itself (network, authentication) is not modelled.
\<close>

record orthanc =
  all_studies :: "string list"
  attachments :: "string \<Rightarrow> string list"
  annotation_data :: "string \<Rightarrow> (string \<times> json) list"
  get_study :: "string \<Rightarrow> study_info"
  get_series :: "string \<Rightarrow> series_info"
  get_instance :: "string \<Rightarrow> instance_info"

section \<open>String operations of Python used by the walker\<close>

text \<open>\<^verbatim>\<open>s.replace(' ', '_')\<close>.\<close>

definition replace_spaces :: "string \<Rightarrow> string" where
  "replace_spaces s = map (\<lambda>c. if c = CHR '' '' then CHR ''_'' else c) s"

text \<open>
  \<^verbatim>\<open>s.lower()\<close>. A character of a \<open>string\<close> is a code point below 256, and on these
  Python's \<^verbatim>\<open>str.lower\<close> works character by character: the capitals, which are the codes
  65 to 90 (A to Z) and 192 to 222 without 215 (the accented capitals of Latin-1, 215 being
  the multiplication sign), move up by 32 to their small letters; every other character stays.
\<close>

definition lower_char :: "char \<Rightarrow> char" where
  "lower_char c =
     (let n = (of_char c :: nat)
      in if (65 \<le> n \<and> n \<le> 90) \<or> (192 \<le> n \<and> n \<le> 222 \<and> n \<noteq> 215)
         then char_of (n + 32) else c)"

definition lower :: "string \<Rightarrow> string" where
  "lower s = map lower_char s"

text \<open>\<^verbatim>\<open>a in b\<close> on strings: \<open>a\<close> occurs in \<open>b\<close> as a contiguous piece.\<close>

fun str_in :: "string \<Rightarrow> string \<Rightarrow> bool" where
  "str_in a [] = (a = [])"
| "str_in a (c # cs) = (prefix a (c # cs) \<or> str_in a cs)"

text \<open>\<^verbatim>\<open>uuid[:-2]\<close>: all but the last two characters (the empty string when there are fewer).\<close>

definition cut_last_two :: "string \<Rightarrow> string" where
  "cut_last_two uuid = take (length uuid - 2) uuid"

text \<open>\<^verbatim>\<open>d['key']\<close> on a dict: the value, or \<^verbatim>\<open>KeyError('key')\<close>.\<close>

definition getitem :: "(string \<times> 'v) list \<Rightarrow> string \<Rightarrow> py_error + 'v" where
  "getitem d k = (case map_of d k of None \<Rightarrow> Inl (KeyError k) | Some v \<Rightarrow> Inr v)"

section \<open>The walker: \<^verbatim>\<open>extract_annotated_studies\<close>\<close>

text \<open>
  Lines 70 to 74: the keys of the annotation attachment whose value is truthy, each with its
  last two characters cut off.
\<close>

definition kept_keys :: "(string \<times> json) list \<Rightarrow> string list" where
  "kept_keys annotation =
     filter (\<lambda>key. case map_of annotation key of None \<Rightarrow> False | Some v \<Rightarrow> truthy v)
       (map fst annotation)"

definition instance_uuids :: "(string \<times> json) list \<Rightarrow> string list" where
  "instance_uuids annotation = map cut_last_two (kept_keys annotation)"

text \<open>Line 83: \<^verbatim>\<open>ignore_str and ignore_str.lower() in patient_id.lower()\<close>.\<close>

definition ignored :: "string option \<Rightarrow> string \<Rightarrow> bool" where
  "ignored ignore_str patient_id =
     (case ignore_str of
        None \<Rightarrow> False
      | Some s \<Rightarrow> s \<noteq> [] \<and> str_in (lower s) (lower patient_id))"

text \<open>The three result lists, appended to together at lines 98 to 100.\<close>

type_synonym results = "string list \<times> string list \<times> string list"

text \<open>Lines 93 to 100: the loop over the instances of one series.\<close>

fun instances_loop ::
  "orthanc \<Rightarrow> string list \<Rightarrow> string \<Rightarrow> string \<Rightarrow> string list \<Rightarrow> results \<Rightarrow> py_error + results"
where
  "instances_loop srv uuids patient_id patient_name [] acc = Inr acc"
| "instances_loop srv uuids patient_id patient_name (instance # rest) (uids, pids, names) =
     (if instance \<notin> set uuids
      then instances_loop srv uuids patient_id patient_name rest (uids, pids, names)
      else
        (case MainDicomTags (get_instance srv instance) of
           None \<Rightarrow> Inl (KeyError ''MainDicomTags'')
         | Some tgs \<Rightarrow>
             (case getitem tgs ''SOPInstanceUID'' of
                Inl e \<Rightarrow> Inl e
              | Inr instance_uid \<Rightarrow>
                  instances_loop srv uuids patient_id patient_name rest
                    (uids @ [instance_uid], pids @ [patient_id], names @ [patient_name]))))"

text \<open>Lines 88 to 100: the loop over the series of one study.\<close>

fun series_loop ::
  "orthanc \<Rightarrow> string list \<Rightarrow> string \<Rightarrow> string \<Rightarrow> string list \<Rightarrow> results \<Rightarrow> py_error + results"
where
  "series_loop srv uuids patient_id patient_name [] acc = Inr acc"
| "series_loop srv uuids patient_id patient_name (series # rest) acc =
     (case Instances (get_series srv series) of
        None \<Rightarrow> Inl (KeyError ''Instances'')
      | Some all_instances \<Rightarrow>
          (case instances_loop srv uuids patient_id patient_name all_instances acc of
             Inl e \<Rightarrow> Inl e
           | Inr acc' \<Rightarrow> series_loop srv uuids patient_id patient_name rest acc'))"

text \<open>Lines 65 to 100: the body of the loop over the studies, for one study.\<close>

definition study_body :: "orthanc \<Rightarrow> string option \<Rightarrow> string \<Rightarrow> results \<Rightarrow> py_error + results" where
  "study_body srv ignore_str study acc =
     (if ''9999'' \<notin> set (attachments srv study) then Inr acc
      else
        let uuids = instance_uuids (annotation_data srv study);
            study_info = get_study srv study
        in
          (case PatientMainDicomTags study_info of
             None \<Rightarrow> Inl (KeyError ''PatientMainDicomTags'')
           | Some tgs \<Rightarrow>
               (case getitem tgs ''PatientID'' of
                  Inl e \<Rightarrow> Inl e
                | Inr pid \<Rightarrow>
                    (case getitem tgs ''PatientName'' of
                       Inl e \<Rightarrow> Inl e
                     | Inr pname \<Rightarrow>
                         (case Series study_info of
                            None \<Rightarrow> Inl (KeyError ''Series'')
                          | Some all_series \<Rightarrow>
                              if ignored ignore_str (replace_spaces pid) then Inr acc
                              else series_loop srv uuids (replace_spaces pid)
                                     (replace_spaces pname) all_series acc)))))"

text \<open>Lines 64 to 100: the loop over all studies.\<close>

fun studies_loop :: "orthanc \<Rightarrow> string option \<Rightarrow> string list \<Rightarrow> results \<Rightarrow> py_error + results" where
  "studies_loop srv ignore_str [] acc = Inr acc"
| "studies_loop srv ignore_str (study # rest) acc =
     (case study_body srv ignore_str study acc of
        Inl e \<Rightarrow> Inl e
      | Inr acc' \<Rightarrow> studies_loop srv ignore_str rest acc')"

text \<open>Lines 59 to 102: the three lists start empty in every call.\<close>

definition extract_annotated_studies :: "orthanc \<Rightarrow> string option \<Rightarrow> py_error + results" where
  "extract_annotated_studies srv ignore_str =
     studies_loop srv ignore_str (all_studies srv) ([], [], [])"

text \<open>
  The rows that \<^verbatim>\<open>main\<close> writes (line 124):
  \<^verbatim>\<open>zip(annotated_instances, patient_ids, patient_names)\<close>.
\<close>

definition match_results :: "results \<Rightarrow> (string \<times> string \<times> string) list" where
  "match_results r = (case r of (uids, pids, names) \<Rightarrow> zip uids (zip pids names))"

section \<open>Splitting the table into batches: \<^verbatim>\<open>orthanc_lists_to_annotate.py\<close>\<close>

text \<open>
  \<^verbatim>\<open>math.ceil(a / b)\<close> on integers with \<open>b \<noteq> 0\<close>. The quotient is computed exactly here;
  Python rounds it to a float first, which agrees for every table that fits in memory.
\<close>

definition ceil_div :: "int \<Rightarrow> int \<Rightarrow> int" where
  "ceil_div a b = - ((- a) div b)"

text \<open>
  Python's \<^verbatim>\<open>range(start, stop, step)\<close> as the list of its items; a step of zero raises
  \<^verbatim>\<open>ValueError\<close>.
\<close>

definition range_len :: "int \<Rightarrow> int \<Rightarrow> int \<Rightarrow> nat" where
  "range_len start stop step =
     (if 0 < step \<and> start < stop then nat (1 + (stop - 1 - start) div step)
      else if step < 0 \<and> stop < start then nat (1 + (start - 1 - stop) div (- step))
      else 0)"

definition py_range :: "int \<Rightarrow> int \<Rightarrow> int \<Rightarrow> py_error + int list" where
  "py_range start stop step =
     (if step = 0 then Inl ValueError
      else Inr (map (\<lambda>k. start + int k * step) [0..<range_len start stop step]))"

text \<open>
  Lines 56 to 66, \<^verbatim>\<open>split_intervals\<close>, on a table of \<open>n\<close> rows:
  \<^verbatim>\<open>range(chunk_size, math.ceil(n / chunk_size) * chunk_size, chunk_size)\<close>.
  The division raises \<^verbatim>\<open>ZeroDivisionError\<close> on a chunk size of zero.
\<close>

definition split_intervals :: "nat \<Rightarrow> int \<Rightarrow> py_error + int list" where
  "split_intervals n chunk_size =
     (if chunk_size = 0 then Inl ZeroDivisionError
      else py_range chunk_size (ceil_div (int n) chunk_size * chunk_size) chunk_size)"

text \<open>
  The row slice \<^verbatim>\<open>rows[st:end]\<close>: a negative bound counts from the end, and both bounds are
  clamped to the table.
\<close>

definition clamp_index :: "nat \<Rightarrow> int \<Rightarrow> nat" where
  "clamp_index n i = (if i < 0 then nat (max (int n + i) 0) else min (nat i) n)"

definition py_slice :: "'a list \<Rightarrow> int \<Rightarrow> int \<Rightarrow> 'a list" where
  "py_slice rows st en =
     (let a = clamp_index (length rows) st; b = clamp_index (length rows) en
      in take (b - a) (drop a rows))"

text \<open>
  \<^verbatim>\<open>np.split(rows, indices)\<close> with a sequence of indices, as numpy's \<^verbatim>\<open>array_split\<close> computes
  it: the division points are \<^verbatim>\<open>[0] + list(indices) + [len(rows)]\<close>, and section \<open>i\<close> is the
  slice from point \<open>i\<close> to point \<open>i + 1\<close>.
\<close>

definition np_split :: "'a list \<Rightarrow> int list \<Rightarrow> 'a list list" where
  "np_split rows indices =
     (let div_points = [0] @ indices @ [int (length rows)]
      in map (\<lambda>i. py_slice rows (div_points ! i) (div_points ! (i + 1)))
           [0..<length indices + 1])"

text \<open>Lines 128 to 131 of \<^verbatim>\<open>main\<close>: the intervals, then the split at them.\<close>

definition split_dfs :: "'a list \<Rightarrow> int \<Rightarrow> py_error + 'a list list" where
  "split_dfs rows chunk_size =
     (case split_intervals (length rows) chunk_size of
        Inl e \<Rightarrow> Inl e
      | Inr interval \<Rightarrow> Inr (np_split rows interval))"

text \<open>
  The division points of \<^verbatim>\<open>np.split\<close> for the intervals of a positive chunk size \<open>c\<close>:
  \<open>0, c, 2c, \<dots>, L c\<close> and the number of rows.
\<close>

definition div_points :: "nat \<Rightarrow> int \<Rightarrow> nat \<Rightarrow> int list" where
  "div_points L c n = [0] @ map (\<lambda>k. int (Suc k) * c) [0..<L] @ [int n]"

section \<open>What a walk reads and emits\<close>

text \<open>
  The notions of this section are not translations of code. They describe the data of a
  server, and are used to state what the walker, as translated above, does with it: which
  instances a walk matches, which rows (the MatchResults of the specification) it emits, and
  whether every field the walk reads is present.
\<close>

text \<open>The tags of instance \<open>i\<close> carry a SOPInstanceUID; and its value (empty when absent).\<close>

definition has_uid :: "orthanc \<Rightarrow> string \<Rightarrow> bool" where
  "has_uid srv i =
     (case MainDicomTags (get_instance srv i) of
        None \<Rightarrow> False
      | Some tgs \<Rightarrow> map_of tgs ''SOPInstanceUID'' \<noteq> None)"

definition sop_uid :: "orthanc \<Rightarrow> string \<Rightarrow> string" where
  "sop_uid srv i =
     (case MainDicomTags (get_instance srv i) of
        None \<Rightarrow> []
      | Some tgs \<Rightarrow> (case map_of tgs ''SOPInstanceUID'' of None \<Rightarrow> [] | Some u \<Rightarrow> u))"

text \<open>
  The three lists after one row per UID of \<open>us\<close> has been appended, all rows with the same
  patient ID and patient name.
\<close>

definition extend :: "results \<Rightarrow> string list \<Rightarrow> string \<Rightarrow> string \<Rightarrow> results" where
  "extend acc us pid pn =
     (case acc of (a, p, n) \<Rightarrow>
        (a @ us, p @ replicate (length us) pid, n @ replicate (length us) pn))"

text \<open>
  The instances that series \<open>r\<close> lists (none when the field is absent); whether the series
  lists its instances and each of them that is in \<open>uuids\<close> carries its SOPInstanceUID; and
  the instances of the series \<open>rs\<close> that are in \<open>uuids\<close>, in the order of the visits.
\<close>

definition instances_of :: "orthanc \<Rightarrow> string \<Rightarrow> string list" where
  "instances_of srv r = (case Instances (get_series srv r) of None \<Rightarrow> [] | Some is \<Rightarrow> is)"

definition series_ok :: "orthanc \<Rightarrow> string list \<Rightarrow> string \<Rightarrow> bool" where
  "series_ok srv uuids r =
     (case Instances (get_series srv r) of
        None \<Rightarrow> False
      | Some is \<Rightarrow> list_all (\<lambda>i. i \<in> set uuids \<longrightarrow> has_uid srv i) is)"

definition matching :: "orthanc \<Rightarrow> string list \<Rightarrow> string list \<Rightarrow> string list" where
  "matching srv uuids rs = filter (\<lambda>i. i \<in> set uuids) (concat (map (instances_of srv) rs))"

text \<open>
  Study \<open>s\<close> carries the annotation attachment; and what the walker reads from its record
  when PatientID, PatientName and Series are all present: the patient ID and the patient name
  with underscores for spaces, and the series.
\<close>

definition annotated :: "orthanc \<Rightarrow> string \<Rightarrow> bool" where
  "annotated srv s = (''9999'' \<in> set (attachments srv s))"

definition study_view :: "orthanc \<Rightarrow> string \<Rightarrow> (string \<times> string \<times> string list) option" where
  "study_view srv s =
     (case PatientMainDicomTags (get_study srv s) of
        None \<Rightarrow> None
      | Some tgs \<Rightarrow>
          (case map_of tgs ''PatientID'' of
             None \<Rightarrow> None
           | Some pid \<Rightarrow>
               (case map_of tgs ''PatientName'' of
                  None \<Rightarrow> None
                | Some pn \<Rightarrow>
                    (case Series (get_study srv s) of
                       None \<Rightarrow> None
                     | Some rs \<Rightarrow> Some (replace_spaces pid, replace_spaces pn, rs)))))"

text \<open>
  The instances of study \<open>s\<close> that a walk matches, in the order of the visits, and the rows
  emitted for them: none for a study that has no annotation attachment, whose record is
  incomplete, or that the exclusion string excludes.
\<close>

definition study_matches :: "orthanc \<Rightarrow> string option \<Rightarrow> string \<Rightarrow> string list" where
  "study_matches srv ign s =
     (if \<not> annotated srv s then []
      else
        (case study_view srv s of
           None \<Rightarrow> []
         | Some (pid, pn, rs) \<Rightarrow>
             if ignored ign pid then []
             else matching srv (instance_uuids (annotation_data srv s)) rs))"

type_synonym match_result = "string \<times> string \<times> string"

definition study_rows :: "orthanc \<Rightarrow> string option \<Rightarrow> string \<Rightarrow> match_result list" where
  "study_rows srv ign s =
     (case study_view srv s of
        None \<Rightarrow> []
      | Some (pid, pn, rs) \<Rightarrow> map (\<lambda>i. (sop_uid srv i, pid, pn)) (study_matches srv ign s))"

text \<open>
  Every field that the walk reads when it handles study \<open>s\<close> is present: nothing is read of
  a study without annotation attachment, the record of an annotated study, and the series
  and matching instances of one that is not excluded.
\<close>

definition study_ok :: "orthanc \<Rightarrow> string option \<Rightarrow> string \<Rightarrow> bool" where
  "study_ok srv ign s =
     (\<not> annotated srv s \<or>
      (case study_view srv s of
         None \<Rightarrow> False
       | Some (pid, pn, rs) \<Rightarrow>
           ignored ign pid \<or>
           list_all (series_ok srv (instance_uuids (annotation_data srv s))) rs))"

text \<open>The three lists after the given rows have been appended; the rows of a whole walk.\<close>

definition append_rows :: "results \<Rightarrow> match_result list \<Rightarrow> results" where
  "append_rows acc rows =
     (case acc of (a, p, n) \<Rightarrow>
        (a @ map fst rows, p @ map (fst \<circ> snd) rows, n @ map (snd \<circ> snd) rows))"

definition walk_rows :: "orthanc \<Rightarrow> string option \<Rightarrow> string list \<Rightarrow> match_result list" where
  "walk_rows srv ign studies = concat (map (study_rows srv ign) studies)"

text \<open>
  The series a walk fetches for a study (none for a study that is not annotated, whose record
  is incomplete, or that is excluded), and the matching instances of a whole walk, in the
  order of the visits.
\<close>

definition fetched_series :: "orthanc \<Rightarrow> string option \<Rightarrow> string \<Rightarrow> string list" where
  "fetched_series srv ign s =
     (if \<not> annotated srv s then []
      else
        (case study_view srv s of
           None \<Rightarrow> []
         | Some (pid, pn, rs) \<Rightarrow> if ignored ign pid then [] else rs))"

definition walk_matches :: "orthanc \<Rightarrow> string option \<Rightarrow> string list" where
  "walk_matches srv ign = concat (map (study_matches srv ign) (all_studies srv))"

text \<open>
  The first field that a read of the walk finds absent: on an instance, on a series (or one
  of its matching instances), on a study (or one of its series), on a server.
\<close>

definition instance_missing :: "orthanc \<Rightarrow> string \<Rightarrow> string \<Rightarrow> bool" where
  "instance_missing srv i k =
     (case MainDicomTags (get_instance srv i) of
        None \<Rightarrow> k = ''MainDicomTags''
      | Some tgs \<Rightarrow> k = ''SOPInstanceUID'' \<and> map_of tgs k = None)"

definition series_missing :: "orthanc \<Rightarrow> string list \<Rightarrow> string \<Rightarrow> string \<Rightarrow> bool" where
  "series_missing srv uuids r k =
     (case Instances (get_series srv r) of
        None \<Rightarrow> k = ''Instances''
      | Some is \<Rightarrow> list_ex (\<lambda>i. i \<in> set uuids \<and> instance_missing srv i k) is)"

definition study_missing :: "orthanc \<Rightarrow> string option \<Rightarrow> string \<Rightarrow> string \<Rightarrow> bool" where
  "study_missing srv ign s k =
     (annotated srv s \<and>
      (case PatientMainDicomTags (get_study srv s) of
         None \<Rightarrow> k = ''PatientMainDicomTags''
       | Some tgs \<Rightarrow>
           (case map_of tgs ''PatientID'' of
              None \<Rightarrow> k = ''PatientID''
            | Some pid \<Rightarrow>
                (case map_of tgs ''PatientName'' of
                   None \<Rightarrow> k = ''PatientName''
                 | Some pname \<Rightarrow>
                     (case Series (get_study srv s) of
                        None \<Rightarrow> k = ''Series''
                      | Some rs \<Rightarrow>
                          \<not> ignored ign (replace_spaces pid) \<and>
                          list_ex (\<lambda>r. series_missing srv
                                     (instance_uuids (annotation_data srv s)) r k) rs)))))"

definition absent_field :: "orthanc \<Rightarrow> string option \<Rightarrow> string \<Rightarrow> bool" where
  "absent_field srv ign k = list_ex (\<lambda>s. study_missing srv ign s k) (all_studies srv)"

section \<open>Example servers\<close>

text \<open>
  The scenario of the specification: study S1 carries the annotation attachment with the
  keys \<open>i1:0\<close> and \<open>i2:0\<close>, and has one series R1 with the instances i1, i2 and i3.
\<close>

definition srv_S1 :: orthanc where
  "srv_S1 =
     \<lparr>all_studies = [''S1''],
      attachments = (\<lambda>s. if s = ''S1'' then [''9999''] else []),
      annotation_data =
        (\<lambda>s. if s = ''S1'' then [(''i1:0'', JBool True), (''i2:0'', JNum 1)] else []),
      get_study =
        (\<lambda>s. \<lparr>PatientMainDicomTags = Some [(''PatientID'', ''P 1''), (''PatientName'', ''Doe John'')],
               Series = Some [''R1'']\<rparr>),
      get_series = (\<lambda>r. \<lparr>Instances = Some [''i1'', ''i2'', ''i3'']\<rparr>),
      get_instance =
        (\<lambda>i. \<lparr>MainDicomTags =
                 (if i = ''i1'' then Some [(''SOPInstanceUID'', ''u1'')]
                  else if i = ''i2'' then Some [(''SOPInstanceUID'', ''u2'')]
                  else None)\<rparr>)\<rparr>"

text \<open>
  A study whose annotation key ends in a suffix of two digits: the key \<open>x:10\<close> for the
  instance \<open>x\<close>.
\<close>

definition srv_x10 :: orthanc where
  "srv_x10 =
     \<lparr>all_studies = [''S1''],
      attachments = (\<lambda>s. [''9999'']),
      annotation_data = (\<lambda>s. [(''x:10'', JBool True)]),
      get_study =
        (\<lambda>s. \<lparr>PatientMainDicomTags = Some [(''PatientID'', ''p1''), (''PatientName'', ''n1'')],
               Series = Some [''R1'']\<rparr>),
      get_series = (\<lambda>r. \<lparr>Instances = Some [''x'']\<rparr>),
      get_instance = (\<lambda>i. \<lparr>MainDicomTags = Some [(''SOPInstanceUID'', ''u'')]\<rparr>)\<rparr>"

text \<open>
  The exclusion example of the specification: Patient ID \<open>patient_anon_001\<close>, one annotated
  instance.
\<close>

definition srv_anon :: orthanc where
  "srv_anon =
     \<lparr>all_studies = [''A1''],
      attachments = (\<lambda>s. [''9999'']),
      annotation_data = (\<lambda>s. [(''i1:0'', JBool True)]),
      get_study =
        (\<lambda>s. \<lparr>PatientMainDicomTags =
                 Some [(''PatientID'', ''patient_anon_001''), (''PatientName'', ''Anon Patient'')],
               Series = Some [''R1'']\<rparr>),
      get_series = (\<lambda>r. \<lparr>Instances = Some [''i1'', ''i9'']\<rparr>),
      get_instance = (\<lambda>i. \<lparr>MainDicomTags = Some [(''SOPInstanceUID'', ''u1'')]\<rparr>)\<rparr>"

text \<open>
  The same study without the PatientName tag; and with a complete record, but a matching
  instance whose tags lack the SOPInstanceUID.
\<close>

definition srv_anon_noname :: orthanc where
  "srv_anon_noname =
     \<lparr>all_studies = [''A1''],
      attachments = (\<lambda>s. [''9999'']),
      annotation_data = (\<lambda>s. [(''i1:0'', JBool True)]),
      get_study =
        (\<lambda>s. \<lparr>PatientMainDicomTags = Some [(''PatientID'', ''patient_anon_001'')],
               Series = Some [''R1'']\<rparr>),
      get_series = (\<lambda>r. \<lparr>Instances = Some [''i1'']\<rparr>),
      get_instance = (\<lambda>i. \<lparr>MainDicomTags = Some [(''SOPInstanceUID'', ''u1'')]\<rparr>)\<rparr>"

definition srv_anon_nouid :: orthanc where
  "srv_anon_nouid =
     \<lparr>all_studies = [''A1''],
      attachments = (\<lambda>s. [''9999'']),
      annotation_data = (\<lambda>s. [(''i1:0'', JBool True)]),
      get_study =
        (\<lambda>s. \<lparr>PatientMainDicomTags =
                 Some [(''PatientID'', ''patient_anon_001''), (''PatientName'', ''Anon Patient'')],
               Series = Some [''R1'']\<rparr>),
      get_series = (\<lambda>r. \<lparr>Instances = Some [''i1'']\<rparr>),
      get_instance = (\<lambda>i. \<lparr>MainDicomTags = Some []\<rparr>)\<rparr>"



text \<open>
  Two annotated studies (an original and an anonymised copy) whose instances are different
  resources carrying the same SOPInstanceUID.
\<close>

definition srv_twins :: orthanc where
  "srv_twins =
     \<lparr>all_studies = [''S1'', ''S2''],
      attachments = (\<lambda>s. [''9999'']),
      annotation_data =
        (\<lambda>s. if s = ''S1'' then [(''i1:0'', JBool True)] else [(''i2:0'', JBool True)]),
      get_study =
        (\<lambda>s. if s = ''S1''
             then \<lparr>PatientMainDicomTags = Some [(''PatientID'', ''p1''), (''PatientName'', ''n1'')],
                   Series = Some [''R1'']\<rparr>
             else \<lparr>PatientMainDicomTags = Some [(''PatientID'', ''anon_p1''), (''PatientName'', ''anon'')],
                   Series = Some [''R2'']\<rparr>),
      get_series = (\<lambda>r. \<lparr>Instances = Some (if r = ''R1'' then [''i1''] else [''i2''])\<rparr>),
      get_instance = (\<lambda>i. \<lparr>MainDicomTags = Some [(''SOPInstanceUID'', ''u1'')]\<rparr>)\<rparr>"

text \<open>
  The scenario server again, with different answers to requests the walk never issues: the
  attachments and the annotation of unlisted studies, the series other than R1, the tags of i3.
\<close>

definition srv_S1_other :: orthanc where
  "srv_S1_other =
     srv_S1
       \<lparr>attachments := (\<lambda>s. if s = ''S1'' then [''9999''] else [''9999'', ''1'']),
        annotation_data := (\<lambda>s. if s = ''S1'' then annotation_data srv_S1 s else [(''i3:0'', JBool True)]),
        get_series := (\<lambda>r. if r = ''R1'' then get_series srv_S1 r else \<lparr>Instances = None\<rparr>),
        get_instance :=
          (\<lambda>i. if i = ''i3'' then \<lparr>MainDicomTags = Some [(''SOPInstanceUID'', ''u3'')]\<rparr>
               else get_instance srv_S1 i)\<rparr>"

text \<open>An annotated study whose tags lack PatientID.\<close>

definition srv_no_pid :: orthanc where
  "srv_no_pid =
     \<lparr>all_studies = [''study-7f3a''],
      attachments = (\<lambda>s. [''9999'']),
      annotation_data = (\<lambda>s. [(''i1:0'', JBool True)]),
      get_study =
        (\<lambda>s. \<lparr>PatientMainDicomTags = Some [(''PatientName'', ''Doe John'')],
               Series = Some [''R1'']\<rparr>),
      get_series = (\<lambda>r. \<lparr>Instances = Some [''i1'']\<rparr>),
      get_instance = (\<lambda>i. \<lparr>MainDicomTags = Some [(''SOPInstanceUID'', ''u1'')]\<rparr>)\<rparr>"

section \<open>The walker computes the emitted rows\<close>

lemma extend_Nil: "extend acc [] pid pn = acc"
  by (simp add: extend_def split: prod.splits)

lemma extend_extend: "extend (extend acc us pid pn) vs pid pn = extend acc (us @ vs) pid pn"
  by (simp add: extend_def replicate_add split: prod.splits)

lemma instances_loop_Inr:
  "instances_loop srv uuids pid pn is acc = Inr r \<Longrightarrow>
     r = extend acc (map (sop_uid srv) (filter (\<lambda>i. i \<in> set uuids) is)) pid pn
     \<and> (\<forall>i\<in>set is. i \<in> set uuids \<longrightarrow> has_uid srv i)"
proof (induction "is" arbitrary: acc)
  case Nil
  then show ?case by (simp add: extend_Nil)
next
  case (Cons i rest)
  obtain a p n where acc: "acc = (a, p, n)" by (cases acc) auto
  show ?case
  proof (cases "i \<in> set uuids")
    case False
    with Cons acc show ?thesis by simp
  next
    case True
    with Cons.prems acc obtain tgs u where
      t: "MainDicomTags (get_instance srv i) = Some tgs" and
      u: "map_of tgs ''SOPInstanceUID'' = Some u" and
      rec: "instances_loop srv uuids pid pn rest (a @ [u], p @ [pid], n @ [pn]) = Inr r"
      by (auto simp: getitem_def split: option.splits sum.splits)
    have e: "(a @ [u], p @ [pid], n @ [pn]) = extend acc [u] pid pn"
      by (simp add: extend_def acc)
    from Cons.IH[OF rec] True t u show ?thesis
      unfolding e by (simp add: extend_extend has_uid_def sop_uid_def)
  qed
qed

lemma instances_loop_ok:
  "\<forall>i\<in>set is. i \<in> set uuids \<longrightarrow> has_uid srv i \<Longrightarrow>
   instances_loop srv uuids pid pn is acc =
     Inr (extend acc (map (sop_uid srv) (filter (\<lambda>i. i \<in> set uuids) is)) pid pn)"
proof (induction "is" arbitrary: acc)
  case Nil
  then show ?case by (simp add: extend_Nil)
next
  case (Cons i rest)
  obtain a p n where acc: "acc = (a, p, n)" by (cases acc) auto
  show ?case
  proof (cases "i \<in> set uuids")
    case False
    with Cons acc show ?thesis by simp
  next
    case True
    with Cons.prems obtain tgs u where
      t: "MainDicomTags (get_instance srv i) = Some tgs" and
      u: "map_of tgs ''SOPInstanceUID'' = Some u"
      by (auto simp: has_uid_def split: option.splits)
    have e: "(a @ [u], p @ [pid], n @ [pn]) = extend acc [u] pid pn"
      by (simp add: extend_def acc)
    from Cons.prems have "\<forall>i\<in>set rest. i \<in> set uuids \<longrightarrow> has_uid srv i" by simp
    from Cons.IH[OF this, of "extend acc [u] pid pn"] True t u show ?thesis
      by (simp add: acc getitem_def e extend_extend sop_uid_def)
  qed
qed


lemma series_loop_Inr:
  "series_loop srv uuids pid pn rs acc = Inr r \<Longrightarrow>
     r = extend acc (map (sop_uid srv) (matching srv uuids rs)) pid pn
     \<and> list_all (series_ok srv uuids) rs"
proof (induction rs arbitrary: acc)
  case Nil
  then show ?case by (simp add: extend_Nil matching_def)
next
  case (Cons s rest)
  from Cons.prems obtain "is" acc' where
    i: "Instances (get_series srv s) = Some is" and
    l: "instances_loop srv uuids pid pn is acc = Inr acc'" and
    rec: "series_loop srv uuids pid pn rest acc' = Inr r"
    by (auto split: option.splits sum.splits)
  from instances_loop_Inr[OF l] Cons.IH[OF rec] i show ?case
    by (simp add: extend_extend matching_def instances_of_def series_ok_def list_all_iff)
qed

lemma series_loop_ok:
  "list_all (series_ok srv uuids) rs \<Longrightarrow>
   series_loop srv uuids pid pn rs acc =
     Inr (extend acc (map (sop_uid srv) (matching srv uuids rs)) pid pn)"
proof (induction rs arbitrary: acc)
  case Nil
  then show ?case by (simp add: extend_Nil matching_def)
next
  case (Cons s rest)
  from Cons.prems obtain "is" where
    i: "Instances (get_series srv s) = Some is" and
    ok: "\<forall>i\<in>set is. i \<in> set uuids \<longrightarrow> has_uid srv i" and
    rest: "list_all (series_ok srv uuids) rest"
    by (auto simp: series_ok_def list_all_iff split: option.splits)
  show ?case
    by (simp add: i instances_loop_ok[OF ok] Cons.IH[OF rest] extend_extend matching_def
        instances_of_def)
qed


lemma append_rows_Nil: "append_rows acc [] = acc"
  by (simp add: append_rows_def split: prod.splits)

lemma append_rows_append:
  "append_rows (append_rows acc xs) ys = append_rows acc (xs @ ys)"
  by (simp add: append_rows_def split: prod.splits)

lemma extend_rows:
  "extend acc (map f ms) pid pn = append_rows acc (map (\<lambda>i. (f i, pid, pn)) ms)"
  by (simp add: extend_def append_rows_def comp_def map_replicate_const split: prod.splits)

lemma study_body_Inr:
  assumes "study_body srv ign s acc = Inr r"
  shows "r = append_rows acc (study_rows srv ign s) \<and> study_ok srv ign s"
proof (cases "annotated srv s")
  case False
  with assms show ?thesis
    by (simp add: study_body_def annotated_def study_rows_def study_matches_def study_ok_def
        append_rows_Nil split: option.splits)
next
  case True
  with assms obtain tgs pid pn rs where
    v: "PatientMainDicomTags (get_study srv s) = Some tgs"
       "map_of tgs ''PatientID'' = Some pid"
       "map_of tgs ''PatientName'' = Some pn"
       "Series (get_study srv s) = Some rs"
    by (auto simp: study_body_def annotated_def getitem_def Let_def
        split: option.splits sum.splits if_splits)
  then have view: "study_view srv s = Some (replace_spaces pid, replace_spaces pn, rs)"
    by (simp add: study_view_def)
  show ?thesis
  proof (cases "ignored ign (replace_spaces pid)")
    case ign: True
    with assms True v view show ?thesis
      by (simp add: study_body_def annotated_def getitem_def study_rows_def study_matches_def
          study_ok_def append_rows_Nil)
  next
    case ign: False
    with assms True v have
      "series_loop srv (instance_uuids (annotation_data srv s)) (replace_spaces pid)
         (replace_spaces pn) rs acc = Inr r"
      by (simp add: study_body_def annotated_def getitem_def)
    from series_loop_Inr[OF this] True view ign show ?thesis
      by (simp add: study_rows_def study_matches_def study_ok_def extend_rows)
  qed
qed

lemma study_body_ok:
  assumes "study_ok srv ign s"
  shows "study_body srv ign s acc = Inr (append_rows acc (study_rows srv ign s))"
proof (cases "annotated srv s")
  case False
  then show ?thesis
    by (simp add: study_body_def annotated_def study_rows_def study_matches_def
        append_rows_Nil split: option.splits)
next
  case True
  with assms obtain tgs pid pn rs where
    v: "PatientMainDicomTags (get_study srv s) = Some tgs"
       "map_of tgs ''PatientID'' = Some pid"
       "map_of tgs ''PatientName'' = Some pn"
       "Series (get_study srv s) = Some rs"
    by (auto simp: study_ok_def study_view_def split: option.splits)
  then have view: "study_view srv s = Some (replace_spaces pid, replace_spaces pn, rs)"
    by (simp add: study_view_def)
  show ?thesis
  proof (cases "ignored ign (replace_spaces pid)")
    case ign: True
    with True v view show ?thesis
      by (simp add: study_body_def annotated_def getitem_def study_rows_def study_matches_def
          append_rows_Nil)
  next
    case ign: False
    with assms True view have
      "list_all (series_ok srv (instance_uuids (annotation_data srv s))) rs"
      by (simp add: study_ok_def)
    from series_loop_ok[OF this] True v view ign show ?thesis
      by (simp add: study_body_def annotated_def getitem_def study_rows_def study_matches_def
          extend_rows)
  qed
qed

lemma studies_loop_Inr:
  "studies_loop srv ign ss acc = Inr r \<Longrightarrow>
     r = append_rows acc (walk_rows srv ign ss) \<and> list_all (study_ok srv ign) ss"
proof (induction ss arbitrary: acc)
  case Nil
  then show ?case by (simp add: walk_rows_def append_rows_Nil)
next
  case (Cons s rest)
  from Cons.prems obtain acc' where
    b: "study_body srv ign s acc = Inr acc'" and
    rec: "studies_loop srv ign rest acc' = Inr r"
    by (auto split: sum.splits)
  from study_body_Inr[OF b] Cons.IH[OF rec] show ?case
    by (simp add: walk_rows_def append_rows_append)
qed

lemma studies_loop_ok:
  "list_all (study_ok srv ign) ss \<Longrightarrow>
   studies_loop srv ign ss acc = Inr (append_rows acc (walk_rows srv ign ss))"
proof (induction ss arbitrary: acc)
  case Nil
  then show ?case by (simp add: walk_rows_def append_rows_Nil)
next
  case (Cons s rest)
  then show ?case
    by (simp add: study_body_ok walk_rows_def append_rows_append)
qed

section \<open>Running the walker on the example servers\<close>

lemmas walker_defs =
  extract_annotated_studies_def study_body_def instance_uuids_def kept_keys_def
  cut_last_two_def getitem_def replace_spaces_def ignored_def lower_def lower_char_def

lemma srv_S1_run:
  "extract_annotated_studies srv_S1 None =
     Inr ([''u1'', ''u2''], [''P_1'', ''P_1''], [''Doe_John'', ''Doe_John''])"
  by (simp add: srv_S1_def walker_defs)

section \<open>The end-to-end scenario\<close>

text \<open>
  Claim C1. A server lists the single study S1; S1 carries the annotation attachment, whose
  keys \<open>i1:0\<close> and \<open>i2:0\<close> have truthy values; S1 has the one series R1 with the instances
  i1, i2, i3 in that order; the tags of i1 and i2 give the SOPInstanceUIDs u1 and u2. Then
  the walk succeeds and the rows it returns are exactly (u1, PatientID, PatientName) and
  (u2, PatientID, PatientName), in that order, where PatientID and PatientName are the
  values the walker derives from the tags of S1 (spaces written as underscores). The
  instance i3 gives no row, and its tags are never read: nothing is assumed about them.
  The exclusion string is any one that does not exclude the study (none, in particular).
\<close>

theorem end_to_end_scenario:
  assumes studies: "all_studies srv = [''S1'']"
    and marker: "''9999'' \<in> set (attachments srv ''S1'')"
    and annotation: "annotation_data srv ''S1'' = [(''i1:0'', v1), (''i2:0'', v2)]"
    and truthy: "truthy v1" "truthy v2"
    and study_tags: "PatientMainDicomTags (get_study srv ''S1'') = Some tgs"
      "map_of tgs ''PatientID'' = Some pid" "map_of tgs ''PatientName'' = Some pname"
    and series: "Series (get_study srv ''S1'') = Some [''R1'']"
    and instances: "Instances (get_series srv ''R1'') = Some [''i1'', ''i2'', ''i3'']"
    and i1: "MainDicomTags (get_instance srv ''i1'') = Some t1"
      "map_of t1 ''SOPInstanceUID'' = Some ''u1''"
    and i2: "MainDicomTags (get_instance srv ''i2'') = Some t2"
      "map_of t2 ''SOPInstanceUID'' = Some ''u2''"
    and not_ignored: "\<not> ignored ign (replace_spaces pid)"
  shows "\<exists>r. extract_annotated_studies srv ign = Inr r \<and>
           match_results r =
             [(''u1'', replace_spaces pid, replace_spaces pname),
              (''u2'', replace_spaces pid, replace_spaces pname)]"
proof -
  have uuids: "instance_uuids (annotation_data srv ''S1'') = [''i1'', ''i2'']"
    using truthy by (simp add: annotation instance_uuids_def kept_keys_def cut_last_two_def)
  have "extract_annotated_studies srv ign =
          Inr ([''u1'', ''u2''], [replace_spaces pid, replace_spaces pid],
               [replace_spaces pname, replace_spaces pname])"
    using marker not_ignored
    by (simp add: extract_annotated_studies_def studies study_body_def uuids study_tags series
        instances i1 i2 getitem_def)
  then show ?thesis by (simp add: match_results_def)
qed

theorem end_to_end_scenario_witness:
  "\<exists>r. extract_annotated_studies srv_S1 None = Inr r \<and>
     match_results r = [(''u1'', ''P_1'', ''Doe_John''), (''u2'', ''P_1'', ''Doe_John'')]"
proof -
  have "\<exists>r. extract_annotated_studies srv_S1 None = Inr r \<and>
           match_results r =
             [(''u1'', replace_spaces ''P 1'', replace_spaces ''Doe John''),
              (''u2'', replace_spaces ''P 1'', replace_spaces ''Doe John'')]"
    by (rule end_to_end_scenario[where ?v1.0 = "JBool True" and ?v2.0 = "JNum 1"
          and tgs = "[(''PatientID'', ''P 1''), (''PatientName'', ''Doe John'')]"
          and ?t1.0 = "[(''SOPInstanceUID'', ''u1'')]" and ?t2.0 = "[(''SOPInstanceUID'', ''u2'')]"])
       (simp_all add: srv_S1_def ignored_def)
  then show ?thesis by (simp add: replace_spaces_def)
qed

section \<open>The three result lists are aligned\<close>

text \<open>
  Claim C9. Whenever the walker returns, its three lists (instance UIDs, patient IDs, patient
  names) have the same length, which is the number of emitted rows, and for every index \<open>k\<close>
  below that length the \<open>k\<close>-th elements of the three lists are the three components of the
  \<open>k\<close>-th emitted row. (A walk that raises returns no lists at all.)
\<close>

theorem walker_lists_aligned:
  assumes "extract_annotated_studies srv ign = Inr (uids, pids, names)"
  shows "length pids = length uids \<and> length names = length uids \<and>
         length (walk_rows srv ign (all_studies srv)) = length uids \<and>
         (\<forall>k<length uids.
            walk_rows srv ign (all_studies srv) ! k = (uids ! k, pids ! k, names ! k))"
proof -
  let ?rows = "walk_rows srv ign (all_studies srv)"
  from assms have "(uids, pids, names) = append_rows ([], [], []) ?rows"
    unfolding extract_annotated_studies_def by (rule studies_loop_Inr[THEN conjunct1])
  then have u: "uids = map fst ?rows" and p: "pids = map (fst \<circ> snd) ?rows"
    and n: "names = map (snd \<circ> snd) ?rows"
    by (simp_all add: append_rows_def)
  show ?thesis
    by (simp add: u p n)
qed

theorem walker_lists_aligned_witness:
  "extract_annotated_studies srv_S1 None =
     Inr ([''u1'', ''u2''], [''P_1'', ''P_1''], [''Doe_John'', ''Doe_John'']) \<and>
   walk_rows srv_S1 None (all_studies srv_S1) ! 1 = (''u2'', ''P_1'', ''Doe_John'')"
proof -
  from walker_lists_aligned[OF srv_S1_run]
  have "\<forall>k<length [''u1'', ''u2''].
          walk_rows srv_S1 None (all_studies srv_S1) ! k =
            ([''u1'', ''u2''] ! k, [''P_1'', ''P_1''] ! k, [''Doe_John'', ''Doe_John''] ! k)"
    by blast
  then have "walk_rows srv_S1 None (all_studies srv_S1) ! 1 =
            ([''u1'', ''u2''] ! 1, [''P_1'', ''P_1''] ! 1, [''Doe_John'', ''Doe_John''] ! 1)"
    by simp
  with srv_S1_run show ?thesis by simp
qed

section \<open>Splitting into batches\<close>

lemma ceil_div_bounds:
  assumes "0 < c"
  shows "a \<le> ceil_div a c * c" and "(ceil_div a c - 1) * c < a"
proof -
  define q where "q = (- a) div c"
  define r where "r = (- a) mod c"
  have m: "0 \<le> r" "r < c" using assms by (simp_all add: r_def)
  have e: "q * c + r = - a" by (simp add: q_def r_def)
  have c1: "ceil_div a c * c = - (q * c)" by (simp add: ceil_div_def q_def)
  have c2: "(ceil_div a c - 1) * c = - (q * c) - c"
    by (simp add: ceil_div_def q_def algebra_simps)
  show "a \<le> ceil_div a c * c" using c1 e m by linarith
  show "(ceil_div a c - 1) * c < a" using c2 e m by linarith
qed

lemma ceil_div_nonneg:
  assumes "0 < c" "0 \<le> a"
  shows "0 \<le> ceil_div a c"
proof -
  from ceil_div_bounds(1)[OF assms(1), of a] assms(2) have "0 \<le> ceil_div a c * c" by linarith
  with assms(1) show ?thesis by (simp add: zero_le_mult_iff)
qed

lemma range_len_chunks:
  assumes "0 < c" "0 \<le> M"
  shows "range_len c (M * c) c = nat M - 1"
proof (cases "2 \<le> M")
  case True
  have "c * 2 \<le> c * M" using True assms(1) by (intro mult_left_mono) auto
  then have lt: "c < M * c" using assms(1) by (simp add: mult.commute)
  have e: "M * c - 1 - c = (c - 1) + (M - 2) * c" by (simp add: algebra_simps)
  have c0: "c \<noteq> 0" using assms(1) by simp
  have "((c - 1) + (M - 2) * c) div c = (M - 2) + (c - 1) div c"
    by (rule div_mult_self1[OF c0])
  moreover have "(c - 1) div c = 0" using assms(1) by (simp add: div_pos_pos_trivial)
  ultimately have "(M * c - 1 - c) div c = M - 2" by (simp only: e)
  with lt assms True show ?thesis by (simp add: range_len_def nat_diff_distrib)
next
  case False
  then have "M = 0 \<or> M = 1" using assms(2) by auto
  then show ?thesis using assms(1) by (auto simp: range_len_def)
qed

lemma split_intervals_pos:
  assumes "0 < c"
  shows "split_intervals n c =
           Inr (map (\<lambda>k. int (Suc k) * c) [0..<nat (ceil_div (int n) c) - 1])"
proof -
  have "0 \<le> ceil_div (int n) c" using assms by (simp add: ceil_div_nonneg)
  from range_len_chunks[OF assms this] assms show ?thesis
    by (simp add: split_intervals_def py_range_def algebra_simps)
qed

lemma py_slice_nat:
  assumes "0 \<le> a" "0 \<le> b"
  shows "py_slice rows a b = take (min (nat b) (length rows) - min (nat a) (length rows))
                               (drop (min (nat a) (length rows)) rows)"
  using assms by (simp add: py_slice_def clamp_index_def Let_def)

lemma length_py_slice:
  assumes "0 \<le> a" "a \<le> b" "b \<le> int (length rows)"
  shows "length (py_slice rows a b) = nat (b - a)"
proof -
  from assms have m: "min (nat a) (length rows) = nat a" "min (nat b) (length rows) = nat b"
    by linarith+
  from assms have "0 \<le> b" by linarith
  with assms(1) have "length (py_slice rows a b) = min (length rows - nat a) (nat b - nat a)"
    by (simp only: py_slice_nat m length_take length_drop)
  also from assms have "\<dots> = nat b - nat a" by linarith
  also from assms have "\<dots> = nat (b - a)" by linarith
  finally show ?thesis .
qed

lemma take_drop_chain:
  assumes "a \<le> b" "b \<le> c"
  shows "take (b - a) (drop a xs) @ take (c - b) (drop b xs) = take (c - a) (drop a xs)"
proof -
  have "take ((b - a) + (c - b)) (drop a xs) =
          take (b - a) (drop a xs) @ take (c - b) (drop (b - a) (drop a xs))"
    by (rule take_add)
  with assms show ?thesis by simp
qed

lemma concat_slices:
  fixes dp :: "int list"
  assumes bounds: "\<And>i. i < length dp \<Longrightarrow> 0 \<le> dp ! i \<and> dp ! i \<le> int (length rows)"
    and mono: "\<And>i. Suc i < length dp \<Longrightarrow> dp ! i \<le> dp ! Suc i"
    and first: "dp ! 0 = 0"
  shows "k < length dp \<Longrightarrow>
         concat (map (\<lambda>i. py_slice rows (dp ! i) (dp ! (i + 1))) [0..<k]) = take (nat (dp ! k)) rows"
proof (induction k)
  case 0
  then show ?case by (simp add: first)
next
  case (Suc k)
  then have k: "k < length dp" by simp
  from bounds[OF k] bounds[OF Suc.prems] mono[OF Suc.prems]
  have b: "0 \<le> dp ! k" "dp ! k \<le> dp ! Suc k" "dp ! Suc k \<le> int (length rows)" by auto
  then have s: "py_slice rows (dp ! k) (dp ! Suc k) =
                  take (nat (dp ! Suc k) - nat (dp ! k)) (drop (nat (dp ! k)) rows)"
    by (simp add: py_slice_nat min_def)
  have "take (nat (dp ! k) - 0) (drop 0 rows) @
          take (nat (dp ! Suc k) - nat (dp ! k)) (drop (nat (dp ! k)) rows) =
        take (nat (dp ! Suc k) - 0) (drop 0 rows)"
    by (rule take_drop_chain) (use b in auto)
  with Suc.IH[OF k] s show ?case by simp
qed

lemma div_points_nth:
  "i \<le> L \<Longrightarrow> div_points L c n ! i = int i * c"
  "div_points L c n ! Suc L = int n"
  by (auto simp: div_points_def nth_append nth_Cons split: nat.splits)

lemma length_div_points: "length (div_points L c n) = L + 2"
  by (simp add: div_points_def)


lemma np_split_div_points:
  "np_split rows (map (\<lambda>k. int (Suc k) * c) [0..<L]) =
     map (\<lambda>i. py_slice rows (div_points L c (length rows) ! i)
                  (div_points L c (length rows) ! (i + 1))) [0..<L + 1]"
  unfolding np_split_def div_points_def Let_def by simp

text \<open>
  Claim C8. For every table \<open>rows\<close> and every chunk size \<open>c > 0\<close>, the split (the intervals of
  \<^verbatim>\<open>split_intervals\<close>, then \<^verbatim>\<open>np.split\<close> at them) succeeds and returns consecutive batches:
  their concatenation is the table itself, so every row is in exactly one batch and the order
  is kept; every batch has at most \<open>c\<close> rows; every batch but the last has exactly \<open>c\<close> rows.
\<close>

theorem split_partitions_rows:
  assumes "0 < chunk_size"
  shows "\<exists>batches. split_dfs rows chunk_size = Inr batches \<and>
           concat batches = rows \<and>
           (\<forall>b\<in>set batches. length b \<le> nat chunk_size) \<and>
           (\<forall>b\<in>set (butlast batches). length b = nat chunk_size)"
proof -
  define n where "n = length rows"
  define M where "M = ceil_div (int n) chunk_size"
  define L where "L = nat M - 1"
  define dp where "dp = div_points L chunk_size n"
  define f where "f = (\<lambda>i. py_slice rows (dp ! i) (dp ! (i + 1)))"
  have M0: "0 \<le> M" using assms by (simp add: M_def ceil_div_nonneg)
  have up: "int n \<le> M * chunk_size" unfolding M_def using assms by (rule ceil_div_bounds(1))
  have low: "(M - 1) * chunk_size < int n"
    unfolding M_def using assms by (rule ceil_div_bounds(2))
  have Lc: "int L * chunk_size \<le> int n"
  proof (cases "M = 0")
    case True
    then show ?thesis by (simp add: L_def)
  next
    case False
    with M0 have "int L = M - 1" by (simp add: L_def)
    with low show ?thesis by simp
  qed
  have Lc': "int n \<le> (int L + 1) * chunk_size"
  proof (cases "M = 0")
    case True
    with up assms show ?thesis by (simp add: L_def)
  next
    case False
    with M0 have "int L + 1 = M" by (simp add: L_def)
    with up show ?thesis by simp
  qed
  have le_L: "int i * chunk_size \<le> int n" if "i \<le> L" for i
  proof -
    from that assms have "int i * chunk_size \<le> int L * chunk_size"
      by (intro mult_right_mono) auto
    with Lc show ?thesis by linarith
  qed
  have len_dp: "length dp = L + 2" by (simp add: dp_def length_div_points)
  have dp_low: "dp ! i = int i * chunk_size" if "i \<le> L" for i
    using that by (simp add: dp_def div_points_nth)
  have dp_top: "dp ! Suc L = int n" by (simp add: dp_def div_points_nth)
  have "split_dfs rows chunk_size =
          Inr (np_split rows (map (\<lambda>k. int (Suc k) * chunk_size) [0..<L]))"
    unfolding split_dfs_def split_intervals_pos[OF assms] L_def M_def n_def by simp
  then have run: "split_dfs rows chunk_size = Inr (map f [0..<L + 1])"
    by (simp only: np_split_div_points f_def dp_def n_def)
  have bounds: "0 \<le> dp ! i \<and> dp ! i \<le> int (length rows)" if "i < length dp" for i
  proof (cases "i \<le> L")
    case True
    with le_L[OF True] assms show ?thesis by (simp add: dp_low n_def)
  next
    case False
    with that have "i = Suc L" by (simp add: len_dp)
    then show ?thesis by (simp add: dp_top n_def)
  qed
  have step: "dp ! Suc i = dp ! i + chunk_size" if "i < L" for i
    using that by (simp add: dp_low algebra_simps)
  have last_step: "dp ! Suc L \<le> dp ! L + chunk_size" "dp ! L \<le> dp ! Suc L"
    using Lc Lc' by (simp_all add: dp_low dp_top algebra_simps)
  have mono: "dp ! i \<le> dp ! Suc i" if "Suc i < length dp" for i
  proof (cases "i < L")
    case True
    with step[OF True] assms show ?thesis by simp
  next
    case False
    with that have "i = L" by (simp add: len_dp)
    with last_step show ?thesis by simp
  qed
  have first: "dp ! 0 = 0" by (simp add: dp_low)
  have "concat (map (\<lambda>i. py_slice rows (dp ! i) (dp ! (i + 1))) [0..<L + 1]) =
          take (nat (dp ! (L + 1))) rows"
    by (rule concat_slices[OF bounds mono first]) (simp_all add: len_dp)
  then have cat: "concat (map f [0..<L + 1]) = rows" by (simp add: f_def dp_top n_def)
  have len: "length (f i) = nat (dp ! Suc i - dp ! i)" if "i \<le> L" for i
  proof -
    from that have "i < length dp" "Suc i < length dp" by (simp_all add: len_dp)
    from bounds[OF this(1)] bounds[OF this(2)] mono[OF this(2)]
    have b: "0 \<le> dp ! i" "dp ! i \<le> dp ! Suc i" "dp ! Suc i \<le> int (length rows)" by auto
    then have "length (py_slice rows (dp ! i) (dp ! Suc i)) = nat (dp ! Suc i - dp ! i)"
      by (rule length_py_slice)
    then show ?thesis by (simp add: f_def)
  qed
  have len_inner: "length (f i) = nat chunk_size" if "i < L" for i
  proof -
    from that have "length (f i) = nat (dp ! Suc i - dp ! i)" by (intro len) simp
    also from step[OF that] have "dp ! Suc i - dp ! i = chunk_size" by linarith
    finally show ?thesis .
  qed
  have len_last: "length (f L) \<le> nat chunk_size"
  proof -
    have "length (f L) = nat (dp ! Suc L - dp ! L)" by (intro len) simp
    also have "\<dots> \<le> nat chunk_size" by (rule nat_mono) (use last_step(1) in linarith)
    finally show ?thesis .
  qed
  have all_le: "\<forall>b\<in>set (map f [0..<L + 1]). length b \<le> nat chunk_size"
  proof
    fix b assume "b \<in> set (map f [0..<L + 1])"
    then have "\<exists>i\<le>L. b = f i" by (auto simp del: upt_Suc simp: less_Suc_eq_le)
    then obtain i where i: "i \<le> L" "b = f i" by blast
    show "length b \<le> nat chunk_size"
    proof (cases "i < L")
      case True
      with len_inner[OF True] i show ?thesis by simp
    next
      case False
      with i have "i = L" by simp
      with len_last i show ?thesis by simp
    qed
  qed
  have "butlast (map f [0..<L + 1]) = map f [0..<L]"
    by (simp add: butlast_append)
  then have inner: "\<forall>b\<in>set (butlast (map f [0..<L + 1])). length b = nat chunk_size"
    using len_inner by auto
  from run cat all_le inner show ?thesis by blast
qed

theorem split_partitions_rows_witness:
  "split_dfs [1, 2, 3, 4, 5, 6, 7 :: nat] 3 = Inr [[1, 2, 3], [4, 5, 6], [7]] \<and>
   (\<exists>batches. split_dfs [1, 2, 3, 4, 5, 6, 7 :: nat] 3 = Inr batches \<and>
      concat batches = [1, 2, 3, 4, 5, 6, 7])"
proof -
  have run: "split_dfs [1, 2, 3, 4, 5, 6, 7 :: nat] 3 = Inr [[1, 2, 3], [4, 5, 6], [7]]"
    by (simp add: split_dfs_def split_intervals_def py_range_def range_len_def ceil_div_def
        np_split_def py_slice_def clamp_index_def Let_def upt_rec nth_Cons')
  have "(0::int) < 3" by simp
  from split_partitions_rows[OF this, of "[1, 2, 3, 4, 5, 6, 7 :: nat]"] run
  show ?thesis by blast
qed

section \<open>Which instances an annotation selects\<close>

text \<open>
  Claim C3, as stated, fails on a key whose suffix is longer than two characters: the walker
  cuts exactly two characters off, so the key \<open>x:10\<close> becomes \<open>x:\<close> and does not select the
  instance \<open>x\<close>; the walk over such a study returns no row.
\<close>

theorem suffix_of_two_digits_counterexample:
  "instance_uuids (annotation_data srv_x10 ''S1'') = [''x:''] \<and>
   ''x'' \<notin> set (instance_uuids (annotation_data srv_x10 ''S1'')) \<and>
   extract_annotated_studies srv_x10 None = Inr ([], [], [])"
  by (simp add: srv_x10_def walker_defs)

lemma kept_keys_iff:
  "key \<in> set (kept_keys annotation) \<longleftrightarrow> (\<exists>v. map_of annotation key = Some v \<and> truthy v)"
proof
  assume "key \<in> set (kept_keys annotation)"
  then show "\<exists>v. map_of annotation key = Some v \<and> truthy v"
    by (auto simp: kept_keys_def split: option.splits)
next
  assume "\<exists>v. map_of annotation key = Some v \<and> truthy v"
  then obtain v where v: "map_of annotation key = Some v" "truthy v" by blast
  from v(1) have "(key, v) \<in> set annotation" by (rule map_of_SomeD)
  then have "key \<in> set (map fst annotation)" by force
  with v show "key \<in> set (kept_keys annotation)" by (simp add: kept_keys_def)
qed

text \<open>
  Claim C3, amended. The instance IDs used for matching are exactly the kept keys (the keys of
  the annotation attachment with a truthy value), each with its last two characters cut off,
  whatever they are. So a kept key made of \<open>x\<close> followed by two characters, such as \<open>x:N\<close> with
  a single digit \<open>N\<close>, selects the instance whose raw ID is exactly \<open>x\<close>.
\<close>

theorem key_loses_last_two_characters:
  "(i \<in> set (instance_uuids annotation) \<longleftrightarrow>
      (\<exists>key v. map_of annotation key = Some v \<and> truthy v \<and> i = take (length key - 2) key)) \<and>
   (map_of annotation (x @ [c, d]) = Some v \<and> truthy v \<longrightarrow> x \<in> set (instance_uuids annotation))"
proof -
  have a: "i \<in> set (instance_uuids annotation) \<longleftrightarrow>
      (\<exists>key v. map_of annotation key = Some v \<and> truthy v \<and> i = take (length key - 2) key)"
    for i
  proof -
    have "i \<in> set (instance_uuids annotation) \<longleftrightarrow>
            (\<exists>key\<in>set (kept_keys annotation). i = take (length key - 2) key)"
      by (auto simp: instance_uuids_def cut_last_two_def)
    also have "\<dots> \<longleftrightarrow>
        (\<exists>key v. map_of annotation key = Some v \<and> truthy v \<and> i = take (length key - 2) key)"
      by (simp add: Bex_def kept_keys_iff) blast
    finally show ?thesis .
  qed
  have "x = take (length (x @ [c, d]) - 2) (x @ [c, d])" by simp
  then have "map_of annotation (x @ [c, d]) = Some v \<and> truthy v \<longrightarrow>
               x \<in> set (instance_uuids annotation)"
    unfolding a by blast
  with a show ?thesis by blast
qed

theorem key_loses_last_two_characters_witness:
  "''i2'' \<in> set (instance_uuids [(''i1:0'', JBool True), (''i2:7'', JNum 1), (''i3:0'', JBool False)])
   \<and> ''i3'' \<notin> set (instance_uuids [(''i1:0'', JBool True), (''i2:7'', JNum 1), (''i3:0'', JBool False)])"
proof -
  let ?a = "[(''i1:0'', JBool True), (''i2:7'', JNum 1), (''i3:0'', JBool False)]"
  have "map_of ?a (''i2'' @ [CHR '':'', CHR ''7'']) = Some (JNum 1) \<and> truthy (JNum 1)" by simp
  with key_loses_last_two_characters[of _ ?a "''i2''" "CHR '':''" "CHR ''7''" "JNum 1"]
  have 1: "''i2'' \<in> set (instance_uuids ?a)" by blast
  have 2: "''i3'' \<notin> set (instance_uuids ?a)"
    by (simp add: instance_uuids_def kept_keys_def cut_last_two_def)
  from 1 2 show ?thesis by simp
qed

section \<open>The exclusion string\<close>

lemmas derived_defs =
  series_ok_def has_uid_def sop_uid_def matching_def instances_of_def append_rows_def

text \<open>
  Claim C4, as stated, fails on studies whose record is incomplete. The walker reads
  PatientName and Series (lines 79 and 80) before the exclusion test (line 83): a study with
  Patient ID \<open>patient_anon_001\<close> and no PatientName tag is not skipped under the exclusion
  string \<open>anon\<close>, the walk raises \<open>KeyError\<close>. With no exclusion string, a study with a matching
  instance whose tags lack the SOPInstanceUID gives no row, the walk raises. And the test is
  made on the Patient ID with underscores for spaces: the exclusion string \<open>p 1\<close> occurs in
  the PatientID tag \<open>P 1\<close>, yet that study is not skipped.
\<close>

theorem excluded_study_not_skipped_counterexample:
  "str_in (lower ''anon'') (lower ''patient_anon_001'') \<and>
   extract_annotated_studies srv_anon_noname (Some ''anon'') = Inl (KeyError ''PatientName'') \<and>
   ''i1'' \<in> set (instance_uuids (annotation_data srv_anon_nouid ''A1'')) \<and>
   extract_annotated_studies srv_anon_nouid None = Inl (KeyError ''SOPInstanceUID'') \<and>
   str_in (lower ''p 1'') (lower ''P 1'') \<and>
   extract_annotated_studies srv_S1 (Some ''p 1'') =
     Inr ([''u1'', ''u2''], [''P_1'', ''P_1''], [''Doe_John'', ''Doe_John''])"
  by (simp add: srv_anon_noname_def srv_anon_nouid_def srv_S1_def walker_defs
      char_of_def bit_Suc_0_iff)

text \<open>The match is case-insensitive on accented letters too.\<close>

lemma ignored_accented_capital: "ignored (Some [CHR 0xE9]) [CHR 0xC9, CHR ''1'']"
  by (simp add: ignored_def lower_def lower_char_def char_of_def bit_Suc_0_iff)

text \<open>
  Claim C4, amended. Take an annotated study whose record carries the Patient ID, the Patient
  Name and the list of series. The Patient ID is the one the walker works with: the tag value
  with spaces written as underscores. If the exclusion string is set (Python: not empty) and
  its lower-case form occurs in the lower-case Patient ID, the body of the loop leaves the
  three lists as they are: the study is skipped. With no exclusion string, and every series
  of the study listing its instances and every matching instance carrying its
  SOPInstanceUID, the study appends exactly one row per matching instance, in order. The
  example of the claim, Patient ID \<open>patient_anon_001\<close> and exclusion string \<open>anon\<close>, is the
  witness: no row with the exclusion string, one row without.
\<close>

theorem exclusion_skips_study:
  assumes marker: "''9999'' \<in> set (attachments srv s)"
    and tags: "PatientMainDicomTags (get_study srv s) = Some tgs"
      "map_of tgs ''PatientID'' = Some pid" "map_of tgs ''PatientName'' = Some pname"
    and series: "Series (get_study srv s) = Some rs"
  shows "(e \<noteq> [] \<and> str_in (lower e) (lower (replace_spaces pid)) \<longrightarrow>
            study_body srv (Some e) s acc = Inr acc) \<and>
         (list_all (series_ok srv (instance_uuids (annotation_data srv s))) rs \<longrightarrow>
            study_body srv None s acc =
              Inr (append_rows acc
                     (map (\<lambda>i. (sop_uid srv i, replace_spaces pid, replace_spaces pname))
                        (matching srv (instance_uuids (annotation_data srv s)) rs))))"
proof (intro conjI impI)
  assume "e \<noteq> [] \<and> str_in (lower e) (lower (replace_spaces pid))"
  then have "ignored (Some e) (replace_spaces pid)" by (simp add: ignored_def)
  with marker tags series show "study_body srv (Some e) s acc = Inr acc"
    by (simp add: study_body_def getitem_def)
next
  let ?uuids = "instance_uuids (annotation_data srv s)"
  assume ok: "list_all (series_ok srv ?uuids) rs"
  have view: "study_view srv s = Some (replace_spaces pid, replace_spaces pname, rs)"
    using tags series by (simp add: study_view_def)
  have "study_ok srv None s"
    using ok view by (simp add: study_ok_def)
  then have "study_body srv None s acc = Inr (append_rows acc (study_rows srv None s))"
    by (rule study_body_ok)
  moreover have "study_rows srv None s =
      map (\<lambda>i. (sop_uid srv i, replace_spaces pid, replace_spaces pname)) (matching srv ?uuids rs)"
    using marker view by (simp add: study_rows_def study_matches_def annotated_def ignored_def)
  ultimately show "study_body srv None s acc =
      Inr (append_rows acc
             (map (\<lambda>i. (sop_uid srv i, replace_spaces pid, replace_spaces pname))
                (matching srv ?uuids rs)))"
    by simp
qed

theorem exclusion_skips_study_witness:
  "extract_annotated_studies srv_anon (Some ''anon'') = Inr ([], [], []) \<and>
   extract_annotated_studies srv_anon None =
     Inr ([''u1''], [''patient_anon_001''], [''Anon_Patient''])"
proof -
  let ?tgs = "[(''PatientID'', ''patient_anon_001''), (''PatientName'', ''Anon Patient'')]"
  have h: "''9999'' \<in> set (attachments srv_anon ''A1'')"
    "PatientMainDicomTags (get_study srv_anon ''A1'') = Some ?tgs"
    "map_of ?tgs ''PatientID'' = Some ''patient_anon_001''"
    "map_of ?tgs ''PatientName'' = Some ''Anon Patient''"
    "Series (get_study srv_anon ''A1'') = Some [''R1'']"
    by (simp_all add: srv_anon_def)
  have sub: "''anon'' \<noteq> [] \<and> str_in (lower ''anon'') (lower (replace_spaces ''patient_anon_001''))"
    by (simp add: lower_def lower_char_def replace_spaces_def)
  have ok: "list_all (series_ok srv_anon (instance_uuids (annotation_data srv_anon ''A1''))) [''R1'']"
    by (simp add: srv_anon_def derived_defs instance_uuids_def kept_keys_def cut_last_two_def)
  note t = exclusion_skips_study[OF h, of "''anon''" "([], [], [])"]
  from t sub have 1: "study_body srv_anon (Some ''anon'') ''A1'' ([], [], []) = Inr ([], [], [])"
    by blast
  from t ok have "study_body srv_anon None ''A1'' ([], [], []) =
      Inr (append_rows ([], [], [])
             (map (\<lambda>i. (sop_uid srv_anon i, replace_spaces ''patient_anon_001'',
                          replace_spaces ''Anon Patient''))
                (matching srv_anon (instance_uuids (annotation_data srv_anon ''A1'')) [''R1''])))"
    by blast
  then have 2: "study_body srv_anon None ''A1'' ([], [], []) =
      Inr ([''u1''], [''patient_anon_001''], [''Anon_Patient''])"
    by (simp add: srv_anon_def derived_defs instance_uuids_def kept_keys_def cut_last_two_def
        replace_spaces_def)
  have st: "all_studies srv_anon = [''A1'']" by (simp add: srv_anon_def)
  from 1 2 show ?thesis
    by (simp add: extract_annotated_studies_def st)
qed

section \<open>Studies that give no row\<close>





section \<open>Repeated instance UIDs\<close>

text \<open>
  Claim C6, as stated, fails: the walker removes no duplicates. Two different instances with
  the same SOPInstanceUID, here in two annotated studies, give the same leaf identifier
  twice.
\<close>

theorem same_uid_twice_counterexample:
  "extract_annotated_studies srv_twins None =
     Inr ([''u1'', ''u1''], [''p1'', ''anon_p1''], [''n1'', ''anon'']) \<and>
   \<not> distinct [''u1'', ''u1'']"
  by (simp add: srv_twins_def walker_defs)

lemma study_rows_uids: "map fst (study_rows srv ign s) = map (sop_uid srv) (study_matches srv ign s)"
  by (simp add: study_rows_def study_matches_def comp_def split: option.splits prod.splits)

lemma walk_rows_uids:
  "map fst (walk_rows srv ign ss) = map (sop_uid srv) (concat (map (study_matches srv ign) ss))"
  by (induction ss) (simp_all add: walk_rows_def study_rows_uids)

lemma extract_uids:
  assumes "extract_annotated_studies srv ign = Inr (uids, pids, names)"
  shows "uids = map (sop_uid srv) (walk_matches srv ign)"
proof -
  from assms have "(uids, pids, names) = append_rows ([], [], []) (walk_rows srv ign (all_studies srv))"
    unfolding extract_annotated_studies_def by (rule studies_loop_Inr[THEN conjunct1])
  then have "uids = map fst (walk_rows srv ign (all_studies srv))"
    by (simp add: append_rows_def)
  then show ?thesis by (simp add: walk_rows_uids walk_matches_def)
qed

text \<open>
  Claim C6, amended. The instance UIDs a walk returns are the SOPInstanceUIDs of the matching
  instances, one per visit and in the order of the visits. So no UID appears twice in the
  output provided the walk visits no matching instance twice (the server lists each one once)
  and different matching instances carry different SOPInstanceUIDs.
\<close>

theorem no_uid_twice_when_visits_distinct:
  assumes "extract_annotated_studies srv ign = Inr (uids, pids, names)"
  shows "length uids = length (walk_matches srv ign) \<and>
         (\<forall>k<length uids. uids ! k = sop_uid srv (walk_matches srv ign ! k)) \<and>
         (distinct (walk_matches srv ign) \<and> inj_on (sop_uid srv) (set (walk_matches srv ign))
            \<longrightarrow> distinct uids)"
proof -
  have u: "uids = map (sop_uid srv) (walk_matches srv ign)" using assms by (rule extract_uids)
  show ?thesis unfolding u by (simp add: distinct_map)
qed

theorem no_uid_twice_when_visits_distinct_witness:
  "extract_annotated_studies srv_S1 None =
     Inr ([''u1'', ''u2''], [''P_1'', ''P_1''], [''Doe_John'', ''Doe_John'']) \<and>
   walk_matches srv_S1 None = [''i1'', ''i2''] \<and> distinct [''u1'', ''u2'']"
proof -
  have m: "walk_matches srv_S1 None = [''i1'', ''i2'']"
    by (simp add: walk_matches_def study_matches_def annotated_def study_view_def matching_def
        instances_of_def srv_S1_def walker_defs)
  have "distinct (walk_matches srv_S1 None) \<and>
        inj_on (sop_uid srv_S1) (set (walk_matches srv_S1 None))"
    unfolding m by (simp add: sop_uid_def srv_S1_def)
  with no_uid_twice_when_visits_distinct[OF srv_S1_run]
  have "distinct [''u1'', ''u2'']" by blast
  with srv_S1_run m show ?thesis by simp
qed

section \<open>Patient fields of the emitted rows\<close>

lemmas char_eval = char_of_def bit_Suc_0_iff

lemma replace_spaces_no_space: "CHR '' '' \<notin> set (replace_spaces s)"
  by (auto simp: replace_spaces_def)

lemma study_rows_fields:
  assumes "row \<in> set (study_rows srv ign s)"
  shows "\<exists>tgs pid pname.
           PatientMainDicomTags (get_study srv s) = Some tgs \<and>
           map_of tgs ''PatientID'' = Some pid \<and> map_of tgs ''PatientName'' = Some pname \<and>
           fst (snd row) = replace_spaces pid \<and> snd (snd row) = replace_spaces pname \<and>
           \<not> ignored ign (replace_spaces pid)"
proof -
  from assms obtain p n rs where view: "study_view srv s = Some (p, n, rs)"
    by (cases "study_view srv s") (auto simp: study_rows_def)
  then obtain tgs pid pname where
    t: "PatientMainDicomTags (get_study srv s) = Some tgs"
       "map_of tgs ''PatientID'' = Some pid" "map_of tgs ''PatientName'' = Some pname"
       "p = replace_spaces pid" "n = replace_spaces pname"
    by (auto simp: study_view_def split: option.splits)
  from assms view have "study_matches srv ign s \<noteq> []" "fst (snd row) = p" "snd (snd row) = n"
    by (auto simp: study_rows_def)
  with view have "\<not> ignored ign p"
    by (auto simp: study_matches_def split: if_splits)
  with t \<open>fst (snd row) = p\<close> \<open>snd (snd row) = n\<close> show ?thesis by auto
qed

lemma srv_S1_run_p1:
  "extract_annotated_studies srv_S1 (Some ''p 1'') =
     Inr ([''u1'', ''u2''], [''P_1'', ''P_1''], [''Doe_John'', ''Doe_John''])"
  by (simp add: srv_S1_def walker_defs char_eval)

lemma srv_S1_run_p_1:
  "extract_annotated_studies srv_S1 (Some ''p_1'') = Inr ([], [], [])"
  by (simp add: srv_S1_def walker_defs char_eval)

text \<open>
  Claim C10. In every row a walk returns, the patient ID and the patient name are the
  PatientID and PatientName tags of a listed study with every space replaced by an underscore
  (no space is left), and that study is one the exclusion test, applied to the replaced
  patient ID, did not exclude. The witness shows the difference to the raw tag: the study
  with PatientID \<open>P 1\<close> is kept under the exclusion string \<open>p 1\<close>, which occurs in the raw
  tag, and skipped under \<open>p_1\<close>, which does not.
\<close>

theorem emitted_patient_fields:
  assumes "extract_annotated_studies srv ign = Inr (uids, pids, names)"
  shows "\<forall>k<length uids. \<exists>s\<in>set (all_studies srv). \<exists>tgs pid pname.
           PatientMainDicomTags (get_study srv s) = Some tgs \<and>
           map_of tgs ''PatientID'' = Some pid \<and> map_of tgs ''PatientName'' = Some pname \<and>
           pids ! k = replace_spaces pid \<and> names ! k = replace_spaces pname \<and>
           CHR '' '' \<notin> set (pids ! k) \<and> CHR '' '' \<notin> set (names ! k) \<and>
           \<not> ignored ign (replace_spaces pid)"
proof (intro allI impI)
  fix k assume k: "k < length uids"
  let ?rows = "walk_rows srv ign (all_studies srv)"
  from assms have "(uids, pids, names) = append_rows ([], [], []) ?rows"
    unfolding extract_annotated_studies_def by (rule studies_loop_Inr[THEN conjunct1])
  then have u: "uids = map fst ?rows" and p: "pids = map (fst \<circ> snd) ?rows"
    and n: "names = map (snd \<circ> snd) ?rows"
    by (simp_all add: append_rows_def)
  from k u have kr: "k < length ?rows" by simp
  then have "?rows ! k \<in> set ?rows" by simp
  then obtain s where s: "s \<in> set (all_studies srv)" "?rows ! k \<in> set (study_rows srv ign s)"
    by (auto simp: walk_rows_def)
  from study_rows_fields[OF s(2)] obtain tgs pid pname where
    f: "PatientMainDicomTags (get_study srv s) = Some tgs"
       "map_of tgs ''PatientID'' = Some pid" "map_of tgs ''PatientName'' = Some pname"
       "fst (snd (?rows ! k)) = replace_spaces pid" "snd (snd (?rows ! k)) = replace_spaces pname"
       "\<not> ignored ign (replace_spaces pid)"
    by blast
  from kr f(4,5) have "pids ! k = replace_spaces pid" "names ! k = replace_spaces pname"
    by (simp_all add: p n)
  with s(1) f replace_spaces_no_space show
    "\<exists>s\<in>set (all_studies srv). \<exists>tgs pid pname.
           PatientMainDicomTags (get_study srv s) = Some tgs \<and>
           map_of tgs ''PatientID'' = Some pid \<and> map_of tgs ''PatientName'' = Some pname \<and>
           pids ! k = replace_spaces pid \<and> names ! k = replace_spaces pname \<and>
           CHR '' '' \<notin> set (pids ! k) \<and> CHR '' '' \<notin> set (names ! k) \<and>
           \<not> ignored ign (replace_spaces pid)"
    by auto
qed

theorem emitted_patient_fields_witness:
  "extract_annotated_studies srv_S1 (Some ''p 1'') =
     Inr ([''u1'', ''u2''], [''P_1'', ''P_1''], [''Doe_John'', ''Doe_John'']) \<and>
   str_in (lower ''p 1'') (lower ''P 1'') \<and>
   \<not> ignored (Some ''p 1'') (replace_spaces ''P 1'') \<and>
   extract_annotated_studies srv_S1 (Some ''p_1'') = Inr ([], [], [])"
proof -
  have "(0::nat) < length [''u1'', ''u2'']" by simp
  with emitted_patient_fields[OF srv_S1_run_p1]
  have "\<exists>s\<in>set (all_studies srv_S1). \<exists>tgs pid pname.
           PatientMainDicomTags (get_study srv_S1 s) = Some tgs \<and>
           map_of tgs ''PatientID'' = Some pid \<and> map_of tgs ''PatientName'' = Some pname \<and>
           [''P_1'', ''P_1''] ! 0 = replace_spaces pid \<and>
           [''Doe_John'', ''Doe_John''] ! 0 = replace_spaces pname \<and>
           CHR '' '' \<notin> set ([''P_1'', ''P_1''] ! 0) \<and>
           CHR '' '' \<notin> set ([''Doe_John'', ''Doe_John''] ! 0) \<and>
           \<not> ignored (Some ''p 1'') (replace_spaces pid)"
    by blast
  then have "\<not> ignored (Some ''p 1'') (replace_spaces ''P 1'')"
    by (auto simp: srv_S1_def)
  moreover have "str_in (lower ''p 1'') (lower ''P 1'')"
    by (simp add: lower_def lower_char_def char_eval)
  ultimately show ?thesis using srv_S1_run_p1 srv_S1_run_p_1 by simp
qed

section \<open>The walk is a function of the answers it reads\<close>

lemma instances_loop_cong:
  "\<forall>i\<in>set is. i \<in> set uuids \<longrightarrow> get_instance srv' i = get_instance srv i \<Longrightarrow>
   instances_loop srv' uuids pid pn is acc = instances_loop srv uuids pid pn is acc"
proof (induction "is" arbitrary: acc)
  case Nil
  then show ?case by simp
next
  case (Cons i rest)
  obtain a p n where acc: "acc = (a, p, n)" by (cases acc) auto
  from Cons.prems have rest: "\<forall>i\<in>set rest. i \<in> set uuids \<longrightarrow> get_instance srv' i = get_instance srv i"
    by simp
  show ?case
  proof (cases "i \<in> set uuids")
    case False
    with Cons.IH[OF rest] acc show ?thesis by simp
  next
    case True
    with Cons.prems have "get_instance srv' i = get_instance srv i" by simp
    with True Cons.IH[OF rest] acc show ?thesis
      by (simp split: option.splits sum.splits)
  qed
qed

lemma series_loop_cong:
  "\<forall>r\<in>set rs. get_series srv' r = get_series srv r \<and>
      (\<forall>i\<in>set (instances_of srv r). i \<in> set uuids \<longrightarrow> get_instance srv' i = get_instance srv i) \<Longrightarrow>
   series_loop srv' uuids pid pn rs acc = series_loop srv uuids pid pn rs acc"
proof (induction rs arbitrary: acc)
  case Nil
  then show ?case by simp
next
  case (Cons r rest)
  from Cons.prems have r: "get_series srv' r = get_series srv r" by simp
  show ?case
  proof (cases "Instances (get_series srv r)")
    case None
    with r show ?thesis by simp
  next
    case (Some "is")
    with Cons.prems have
      "\<forall>i\<in>set is. i \<in> set uuids \<longrightarrow> get_instance srv' i = get_instance srv i"
      by (simp add: instances_of_def)
    then have "instances_loop srv' uuids pid pn is acc = instances_loop srv uuids pid pn is acc"
      by (rule instances_loop_cong)
    with Cons.IH Cons.prems r Some show ?thesis
      by (simp split: sum.splits)
  qed
qed

lemma matching_iff:
  "i \<in> set (matching srv uuids rs) \<longleftrightarrow> i \<in> set uuids \<and> (\<exists>r\<in>set rs. i \<in> set (instances_of srv r))"
  by (auto simp: matching_def)

lemma study_body_cong:
  assumes att: "attachments srv' s = attachments srv s"
    and ann: "annotated srv s \<longrightarrow>
                annotation_data srv' s = annotation_data srv s \<and> get_study srv' s = get_study srv s"
    and ser: "\<forall>r\<in>set (fetched_series srv ign s). get_series srv' r = get_series srv r"
    and ins: "\<forall>i\<in>set (study_matches srv ign s). get_instance srv' i = get_instance srv i"
  shows "study_body srv' ign s acc = study_body srv ign s acc"
proof (cases "annotated srv s")
  case False
  with att show ?thesis by (simp add: study_body_def annotated_def)
next
  case True
  with ann have same: "annotation_data srv' s = annotation_data srv s"
    "get_study srv' s = get_study srv s" by simp_all
  show ?thesis
  proof (cases "study_view srv s")
    case None
    then show ?thesis
      unfolding study_body_def att same
      by (auto simp: study_view_def getitem_def split: option.splits)
  next
    case (Some v)
    then obtain p n rs where view: "study_view srv s = Some (p, n, rs)" by (cases v) auto
    then obtain tgs pid pname where
      t: "PatientMainDicomTags (get_study srv s) = Some tgs"
         "map_of tgs ''PatientID'' = Some pid" "map_of tgs ''PatientName'' = Some pname"
         "Series (get_study srv s) = Some rs"
         "p = replace_spaces pid" "n = replace_spaces pname"
      by (auto simp: study_view_def split: option.splits)
    show ?thesis
    proof (cases "ignored ign p")
      case True
      with t show ?thesis
        unfolding study_body_def att same by (simp add: getitem_def)
    next
      case False
      let ?uuids = "instance_uuids (annotation_data srv s)"
      from False view \<open>annotated srv s\<close> have fs: "fetched_series srv ign s = rs"
        and sm: "study_matches srv ign s = matching srv ?uuids rs"
        by (simp_all add: fetched_series_def study_matches_def)
      have "\<forall>r\<in>set rs. get_series srv' r = get_series srv r \<and>
              (\<forall>i\<in>set (instances_of srv r). i \<in> set ?uuids \<longrightarrow>
                 get_instance srv' i = get_instance srv i)"
        using ser ins unfolding fs sm by (auto simp: matching_iff)
      then have "series_loop srv' ?uuids p n rs acc = series_loop srv ?uuids p n rs acc"
        by (rule series_loop_cong)
      with False t show ?thesis
        unfolding study_body_def att same by (simp add: getitem_def)
    qed
  qed
qed

lemma studies_loop_cong:
  "\<forall>s\<in>set ss. attachments srv' s = attachments srv s \<and>
      (annotated srv s \<longrightarrow>
         annotation_data srv' s = annotation_data srv s \<and> get_study srv' s = get_study srv s) \<and>
      (\<forall>r\<in>set (fetched_series srv ign s). get_series srv' r = get_series srv r) \<and>
      (\<forall>i\<in>set (study_matches srv ign s). get_instance srv' i = get_instance srv i) \<Longrightarrow>
   studies_loop srv' ign ss acc = studies_loop srv ign ss acc"
proof (induction ss arbitrary: acc)
  case Nil
  then show ?case by simp
next
  case (Cons s rest)
  then have "study_body srv' ign s acc = study_body srv ign s acc"
    by (intro study_body_cong) simp_all
  with Cons show ?case by (simp split: sum.splits)
qed

text \<open>
  Claim C7. The result of a walk, the three lists in their order or the error, is determined
  by the answers to the requests the walk issues. Two data sources that list the same
  studies and answer alike for the attachments of each listed study, for the annotation and
  the record of each annotated one, for each series the walk fetches and for each matching
  instance, give the same result. In particular a second walk over an unchanged data source
  returns what the first returned. The walker carries nothing from one call to the next: the
  three lists start empty in every call, and the server is only read.
\<close>

theorem walk_is_function_of_answers:
  assumes "all_studies srv' = all_studies srv"
    and "\<forall>s\<in>set (all_studies srv). attachments srv' s = attachments srv s"
    and "\<forall>s\<in>set (all_studies srv). annotated srv s \<longrightarrow>
           annotation_data srv' s = annotation_data srv s \<and> get_study srv' s = get_study srv s"
    and "\<forall>s\<in>set (all_studies srv). \<forall>r\<in>set (fetched_series srv ign s).
           get_series srv' r = get_series srv r"
    and "\<forall>s\<in>set (all_studies srv). \<forall>i\<in>set (study_matches srv ign s).
           get_instance srv' i = get_instance srv i"
  shows "extract_annotated_studies srv' ign = extract_annotated_studies srv ign"
  unfolding extract_annotated_studies_def assms(1)
  by (rule studies_loop_cong) (use assms(2-5) in blast)


theorem walk_is_function_of_answers_witness:
  "extract_annotated_studies srv_S1_other None =
     Inr ([''u1'', ''u2''], [''P_1'', ''P_1''], [''Doe_John'', ''Doe_John'']) \<and>
   extract_annotated_studies srv_S1 None =
     Inr ([''u1'', ''u2''], [''P_1'', ''P_1''], [''Doe_John'', ''Doe_John'']) \<and>
   get_instance srv_S1_other ''i3'' \<noteq> get_instance srv_S1 ''i3''"
proof -
  have fs: "fetched_series srv_S1 None ''S1'' = [''R1'']"
    by (simp add: fetched_series_def annotated_def study_view_def srv_S1_def ignored_def)
  have sm: "study_matches srv_S1 None ''S1'' = [''i1'', ''i2'']"
    by (simp add: study_matches_def annotated_def study_view_def matching_def
        instances_of_def srv_S1_def walker_defs)
  have st: "all_studies srv_S1 = [''S1'']" by (simp add: srv_S1_def)
  have "extract_annotated_studies srv_S1_other None = extract_annotated_studies srv_S1 None"
    by (rule walk_is_function_of_answers) (simp_all add: st fs sm, simp_all add: srv_S1_other_def srv_S1_def)
  moreover have "get_instance srv_S1_other ''i3'' \<noteq> get_instance srv_S1 ''i3''"
    by (simp add: srv_S1_other_def srv_S1_def)
  ultimately show ?thesis using srv_S1_run by simp
qed

section \<open>Missing fields\<close>

text \<open>
  Claim C2, as stated, fails: the code has no \<open>MissingFieldError\<close>. A read of an absent field
  raises Python's \<open>KeyError\<close>, which carries the name of the field and nothing else; the ID
  of the resource is not in it.
\<close>

theorem error_names_field_only_counterexample:
  "extract_annotated_studies srv_no_pid None = Inl (KeyError ''PatientID'') \<and>
   \<not> str_in ''study-7f3a'' ''PatientID''"
  by (simp add: srv_no_pid_def walker_defs)

lemma instances_loop_Inl:
  "instances_loop srv uuids pid pn is acc = Inl e \<Longrightarrow>
     \<exists>k. e = KeyError k \<and> list_ex (\<lambda>i. i \<in> set uuids \<and> instance_missing srv i k) is"
proof (induction "is" arbitrary: acc)
  case Nil
  then show ?case by simp
next
  case (Cons i rest)
  obtain a p n where acc: "acc = (a, p, n)" by (cases acc) auto
  show ?case
  proof (cases "i \<in> set uuids")
    case False
    with Cons acc show ?thesis by auto
  next
    case True
    show ?thesis
    proof (cases "MainDicomTags (get_instance srv i)")
      case None
      with Cons.prems True acc show ?thesis by (auto simp: instance_missing_def)
    next
      case (Some tgs)
      show ?thesis
      proof (cases "map_of tgs ''SOPInstanceUID''")
        case None
        with Cons.prems True acc Some show ?thesis
          by (auto simp: instance_missing_def getitem_def)
      next
        case (Some u)
        with Cons.prems True acc \<open>MainDicomTags (get_instance srv i) = Some tgs\<close>
        have "instances_loop srv uuids pid pn rest (a @ [u], p @ [pid], n @ [pn]) = Inl e"
          by (simp add: getitem_def)
        from Cons.IH[OF this] show ?thesis by auto
      qed
    qed
  qed
qed

lemma series_loop_Inl:
  "series_loop srv uuids pid pn rs acc = Inl e \<Longrightarrow>
     \<exists>k. e = KeyError k \<and> list_ex (\<lambda>r. series_missing srv uuids r k) rs"
proof (induction rs arbitrary: acc)
  case Nil
  then show ?case by simp
next
  case (Cons r rest)
  show ?case
  proof (cases "Instances (get_series srv r)")
    case None
    with Cons.prems show ?thesis by (auto simp: series_missing_def)
  next
    case (Some "is")
    show ?thesis
    proof (cases "instances_loop srv uuids pid pn is acc")
      case (Inl e')
      with Cons.prems Some have "e' = e" by simp
      with instances_loop_Inl[OF Inl] Some show ?thesis by (auto simp: series_missing_def)
    next
      case (Inr acc')
      with Cons.prems Some have "series_loop srv uuids pid pn rest acc' = Inl e" by simp
      from Cons.IH[OF this] show ?thesis by auto
    qed
  qed
qed

lemma study_body_Inl:
  assumes "study_body srv ign s acc = Inl e"
  shows "\<exists>k. e = KeyError k \<and> study_missing srv ign s k"
proof -
  from assms have ann: "annotated srv s"
    by (auto simp: study_body_def annotated_def split: if_splits)
  show ?thesis
  proof (cases "study_view srv s")
    case None
    with assms ann show ?thesis
      by (auto simp: study_body_def study_missing_def study_view_def annotated_def getitem_def
          split: option.splits)
  next
    case (Some v)
    then obtain tgs pid pname rs where
      t: "PatientMainDicomTags (get_study srv s) = Some tgs"
         "map_of tgs ''PatientID'' = Some pid" "map_of tgs ''PatientName'' = Some pname"
         "Series (get_study srv s) = Some rs"
      by (auto simp: study_view_def split: option.splits)
    with assms ann have ni: "\<not> ignored ign (replace_spaces pid)" and
      "series_loop srv (instance_uuids (annotation_data srv s)) (replace_spaces pid)
         (replace_spaces pname) rs acc = Inl e"
      by (auto simp: study_body_def annotated_def getitem_def split: if_splits)
    from series_loop_Inl[OF this(2)] ni t ann show ?thesis
      by (auto simp: study_missing_def)
  qed
qed

lemma studies_loop_Inl:
  "studies_loop srv ign ss acc = Inl e \<Longrightarrow>
     \<exists>k. e = KeyError k \<and> list_ex (\<lambda>s. study_missing srv ign s k) ss"
proof (induction ss arbitrary: acc)
  case Nil
  then show ?case by simp
next
  case (Cons s rest)
  show ?case
  proof (cases "study_body srv ign s acc")
    case (Inl e')
    with Cons.prems have "e' = e" by simp
    with study_body_Inl[OF Inl] show ?thesis by auto
  next
    case (Inr acc')
    with Cons.prems have "studies_loop srv ign rest acc' = Inl e" by simp
    from Cons.IH[OF this] show ?thesis by auto
  qed
qed

lemma series_missing_not_ok: "series_missing srv uuids r k \<Longrightarrow> \<not> series_ok srv uuids r"
  by (auto simp: series_missing_def series_ok_def instance_missing_def has_uid_def
      list_ex_iff list_all_iff split: option.splits)

lemma study_missing_not_ok: "study_missing srv ign s k \<Longrightarrow> \<not> study_ok srv ign s"
  by (auto simp: study_missing_def study_ok_def study_view_def list_ex_iff list_all_iff
      dest: series_missing_not_ok split: option.splits)

text \<open>
  Claim C2, amended. When a field that the walk reads is absent on a resource it fetches
  (PatientMainDicomTags, PatientID, PatientName or Series on an annotated study; Instances on
  a series of an annotated study that is not excluded; MainDicomTags or SOPInstanceUID on a
  matching instance), the walk fails with \<open>KeyError\<close> carrying the name of such an absent
  field, and returns no lists: no field is given a default value.
\<close>

theorem missing_field_raises_KeyError:
  assumes "absent_field srv ign k"
  shows "\<exists>k'. extract_annotated_studies srv ign = Inl (KeyError k') \<and> absent_field srv ign k'"
proof (cases "extract_annotated_studies srv ign")
  case (Inl e)
  then have "\<exists>k'. e = KeyError k' \<and> absent_field srv ign k'"
    unfolding extract_annotated_studies_def absent_field_def by (rule studies_loop_Inl)
  with Inl show ?thesis by blast
next
  case (Inr r)
  then have "list_all (study_ok srv ign) (all_studies srv)"
    unfolding extract_annotated_studies_def by (rule studies_loop_Inr[THEN conjunct2])
  with assms study_missing_not_ok have False
    by (auto simp: absent_field_def list_ex_iff list_all_iff)
  then show ?thesis ..
qed

theorem missing_field_raises_KeyError_witness:
  "absent_field srv_no_pid None ''PatientID'' \<and>
   extract_annotated_studies srv_no_pid None = Inl (KeyError ''PatientID'')"
proof -
  have a: "absent_field srv_no_pid None ''PatientID''"
    by (simp add: absent_field_def study_missing_def annotated_def srv_no_pid_def)
  from missing_field_raises_KeyError[OF a]
  obtain k where e: "extract_annotated_studies srv_no_pid None = Inl (KeyError k)"
    "absent_field srv_no_pid None k"
    by blast
  from e(2) have "k = ''PatientID''"
    by (simp add: absent_field_def study_missing_def annotated_def srv_no_pid_def)
  with e a show ?thesis by simp
qed

end
